theory Spec2Isabelle
  imports Main "HOL-Library.AList" "HOL-Library.Word"
begin

section \<open>Containers of the host language\<close>

text \<open>
  A JavaScript \<open>Map\<close> iterates in insertion order and holds each key once. It is an
  association list here: \<open>get\<close> is \<^const>\<open>map_of\<close>, \<open>set\<close> overwrites in place or
  appends, \<open>delete\<close> removes the key; \<open>new_Map\<close> sets the given pairs one after the
  other, a later pair overwriting an earlier one with the same key. A \<open>Set\<close> is a list
  without repetition in insertion order.
\<close>

definition Map_set :: "'k \<Rightarrow> 'v \<Rightarrow> ('k \<times> 'v) list \<Rightarrow> ('k \<times> 'v) list" where
  "Map_set k v m = AList.update k v m"

definition Map_delete :: "'k \<Rightarrow> ('k \<times> 'v) list \<Rightarrow> ('k \<times> 'v) list" where
  "Map_delete k m = AList.delete k m"

definition new_Map :: "('k \<times> 'v) list \<Rightarrow> ('k \<times> 'v) list" where
  "new_Map kvs = foldl (\<lambda>m kv. Map_set (fst kv) (snd kv) m) [] kvs"

definition Set_add :: "'a \<Rightarrow> 'a list \<Rightarrow> 'a list" where
  "Set_add x s = (if x \<in> set s then s else s @ [x])"

definition Set_delete :: "'a \<Rightarrow> 'a list \<Rightarrow> 'a list" where
  "Set_delete x s = filter (\<lambda>y. y \<noteq> x) s"

definition new_Set :: "'a list \<Rightarrow> 'a list" where
  "new_Set xs = foldl (\<lambda>s x. Set_add x s) [] xs"

section \<open>Trees in memory\<close>

datatype EntryType = blob | symlink | tree

record StoredTreeEntry =
  path :: string
  sha :: string
  mode :: string

record TreeEntry = StoredTreeEntry +
  type :: EntryType

datatype TreeNode =
  TreeNode (entry: TreeEntry) (children: "(string \<times> TreeNode) list option")

type_synonym TreeMap = "(string \<times> TreeNode) list"

section \<open>The tree diff\<close>

text \<open>\<open>getLeafPaths\<close>: the paths of all entries below a directory that are not trees.\<close>

fun getLeafPaths :: "TreeMap \<Rightarrow> string list" where
  "getLeafPaths [] = []"
| "getLeafPaths ((p, TreeNode e ch) # rest) =
     (if type e = tree then
        (case ch of
           None \<Rightarrow> getLeafPaths rest
         | Some c \<Rightarrow>
             map (\<lambda>childPath. p @ ''/'' @ childPath) (getLeafPaths c) @ getLeafPaths rest)
      else p # getLeafPaths rest)"

record Diff =
  additions :: "(string \<times> string) list"
  deletions :: "string list"

text \<open>
  The second loop of \<open>diffTrees\<close>: every key of the old tree that is still in the set
  \<open>deletions\<close> becomes the leaf paths below it (a tree with children) or the key itself.
\<close>

fun diffTrees_deletions :: "TreeMap \<Rightarrow> string list \<Rightarrow> string list \<Rightarrow> string list" where
  "diffTrees_deletions oldTree [] allDeletions = allDeletions"
| "diffTrees_deletions oldTree (deletion # rest) allDeletions =
     (let node = map_of oldTree deletion
      in if (case node of None \<Rightarrow> False
             | Some n \<Rightarrow> type (entry n) = tree \<and> children n \<noteq> None)
         then diffTrees_deletions oldTree rest
                (allDeletions @
                  map (\<lambda>p. deletion @ ''/'' @ p) (getLeafPaths (the (children (the node)))))
         else diffTrees_deletions oldTree rest (allDeletions @ [deletion]))"

text \<open>
  \<open>diffTrees\<close> and its first loop over the entries of the new tree. The loop state is
  \<open>(additions, deletions, allDeletions)\<close>; an addition is a pair of a path and a sha.
\<close>

type_synonym DiffState = "(string \<times> string) list \<times> string list \<times> string list"

fun diffTrees :: "TreeMap \<Rightarrow> TreeMap \<Rightarrow> Diff"
and diffTrees_loop :: "TreeMap \<Rightarrow> TreeMap \<Rightarrow> DiffState \<Rightarrow> DiffState"
where
  "diffTrees oldTree newTree =
     (case diffTrees_loop oldTree newTree ([], new_Set (map fst oldTree), []) of
        (adds, dels, allDeletions) \<Rightarrow>
          \<lparr>additions = adds, deletions = diffTrees_deletions oldTree dels allDeletions\<rparr>)"
| "diffTrees_loop oldTree [] st = st"
| "diffTrees_loop oldTree ((p, TreeNode e ch) # rest) (adds, dels, allDeletions) =
     (let dels' = Set_delete p dels;
          oldNode = map_of oldTree p
      in if oldNode = None \<or> sha (entry (the oldNode)) \<noteq> sha e then
           (let adds1 = (if type e = blob then adds @ [(p, sha e)] else adds)
            in case ch of
                 Some c \<Rightarrow>
                   if type e = tree then
                     (let result =
                            diffTrees
                              (case oldNode of None \<Rightarrow> []
                               | Some n \<Rightarrow> (case children n of None \<Rightarrow> [] | Some oc \<Rightarrow> oc))
                              c
                      in diffTrees_loop oldTree rest
                           (adds1 @ map (\<lambda>(ap, s). (p @ ''/'' @ ap, s)) (additions result),
                            dels',
                            allDeletions @ map (\<lambda>d. p @ ''/'' @ d) (deletions result)))
                   else diffTrees_loop oldTree rest (adds1, dels', allDeletions)
               | None \<Rightarrow> diffTrees_loop oldTree rest (adds1, dels', allDeletions))
         else diffTrees_loop oldTree rest (adds, dels', allDeletions))"

section \<open>The persistent object store\<close>

text \<open>
  Keys of the browser's database are strings or other key values; the values it holds are
  unvalidated. Only the shape that the schemas inspect is kept: scalars, arrays and
  objects (an object lists its properties in enumeration order).
\<close>

datatype IDBValidKey = StrKey string | NumKey int

datatype js_value =
    VUndefined
  | VNull
  | VBool bool
  | VNum int
  | VStr string
  | VArr "js_value list"
  | VObj "(string \<times> js_value) list"

type_synonym StoredTrees = "(string \<times> StoredTreeEntry list) list"

text \<open>\<open>treeSchema\<close>: an array of objects with string properties \<open>path\<close>, \<open>mode\<close>, \<open>sha\<close>.\<close>

definition treeSchema_entry :: "js_value \<Rightarrow> StoredTreeEntry option" where
  "treeSchema_entry v =
     (case v of
        VObj props \<Rightarrow>
          (case (map_of props ''path'', map_of props ''mode'', map_of props ''sha'') of
             (Some (VStr p), Some (VStr m), Some (VStr s)) \<Rightarrow>
               Some \<lparr>path = p, sha = s, mode = m\<rparr>
           | _ \<Rightarrow> None)
      | _ \<Rightarrow> None)"

definition treeSchema_safeParse :: "js_value \<Rightarrow> StoredTreeEntry list option" where
  "treeSchema_safeParse v =
     (case v of VArr xs \<Rightarrow> those (map treeSchema_entry xs) | _ \<Rightarrow> None)"

text \<open>A typed entry list seen as the raw value that the schema is given again.\<close>

definition js_of_entries :: "StoredTreeEntry list \<Rightarrow> js_value" where
  "js_of_entries es =
     VArr (map (\<lambda>e. VObj [(''path'', VStr (path e)), (''mode'', VStr (mode e)),
                           (''sha'', VStr (sha e))]) es)"

text \<open>
  The module state: the two stores of the database, the browser's \<open>localStorage\<close> and the
  module variable \<open>_storedTreeCache\<close> (\<open>None\<close> while it is undefined).
\<close>

record ObjectStore =
  treeStore :: "(IDBValidKey \<times> js_value) list"
  blobStore :: "(IDBValidKey \<times> 8 word list) list"
  localStorage :: "string \<rightharpoonup> string"
  storedTreeCache :: "StoredTrees option"

text \<open>The operations of the key-value library that the module calls.\<close>

definition delMany :: "'k list \<Rightarrow> ('k \<times> 'v) list \<Rightarrow> ('k \<times> 'v) list" where
  "delMany ks store = filter (\<lambda>kv. fst kv \<notin> set ks) store"

fun getStoredTrees_loop :: "(IDBValidKey \<times> js_value) list \<Rightarrow> StoredTrees \<Rightarrow> StoredTrees" where
  "getStoredTrees_loop [] cache = cache"
| "getStoredTrees_loop ((k, t) # rest) cache =
     (case (treeSchema_safeParse t, k) of
        (Some data, StrKey s) \<Rightarrow> getStoredTrees_loop rest (Map_set s data cache)
      | _ \<Rightarrow> getStoredTrees_loop rest cache)"

definition getStoredTrees :: "ObjectStore \<Rightarrow> StoredTrees \<times> ObjectStore" where
  "getStoredTrees st =
     (case storedTreeCache st of
        Some cache \<Rightarrow> (cache, st)
      | None \<Rightarrow>
          (let cache = getStoredTrees_loop (treeStore st) []
           in (cache, st\<lparr>storedTreeCache := Some cache\<rparr>)))"

section \<open>Rebuilding a tree from stored trees\<close>

text \<open>
  \<open>constructTreeFromStoredTrees\<close> recurses through the map by sha, so on a map that refers
  back to itself it never returns. The first argument bounds the depth of the recursion;
  \<open>OutOfFuel\<close> is the answer of a call that needs more. \<open>Returns None\<close> is the
  \<open>undefined\<close> of the source.
\<close>

datatype 'a outcome = OutOfFuel | Returns 'a

fun constructTreeFromStoredTrees ::
  "nat \<Rightarrow> string \<Rightarrow> StoredTrees \<Rightarrow> string \<Rightarrow> TreeNode option outcome"
and constructTree_loop ::
  "nat \<Rightarrow> StoredTreeEntry list \<Rightarrow> StoredTrees \<Rightarrow> string \<Rightarrow> TreeMap \<Rightarrow> TreeMap option outcome"
where
  "constructTreeFromStoredTrees 0 s trees parentPath = OutOfFuel"
| "constructTreeFromStoredTrees (Suc n) s trees parentPath =
     (case map_of trees s of
        None \<Rightarrow> Returns None
      | Some storedTree \<Rightarrow>
          (case constructTree_loop n storedTree trees parentPath [] of
             OutOfFuel \<Rightarrow> OutOfFuel
           | Returns None \<Rightarrow> Returns None
           | Returns (Some t) \<Rightarrow>
               Returns (Some (TreeNode
                 \<lparr>path = parentPath, sha = s, mode = ''040000'', type = tree\<rparr> (Some t)))))"
| "constructTree_loop n [] trees parentPath t = Returns (Some t)"
| "constructTree_loop n (e # rest) trees parentPath t =
     (let innerPath = (if parentPath = '''' then '''' else parentPath @ ''/'') @ path e
      in if mode e = ''040000'' then
           (case constructTreeFromStoredTrees n (sha e) trees innerPath of
              OutOfFuel \<Rightarrow> OutOfFuel
            | Returns None \<Rightarrow> Returns None
            | Returns (Some child) \<Rightarrow>
                constructTree_loop n rest trees parentPath (Map_set (path e) child t))
         else constructTree_loop n rest trees parentPath
                (Map_set (path e)
                   (TreeNode
                      \<lparr>path = innerPath, sha = sha e, mode = mode e,
                       type = (if mode e = ''120000'' then symlink else blob)\<rparr>
                      None)
                   t))"

definition getTreeFromPersistedCache ::
  "nat \<Rightarrow> string \<Rightarrow> ObjectStore \<Rightarrow> TreeNode option outcome \<times> ObjectStore" where
  "getTreeFromPersistedCache n s st =
     (case getStoredTrees st of
        (stored, st') \<Rightarrow> (constructTreeFromStoredTrees n s stored '''', st'))"

section \<open>The extra-roots registry\<close>

datatype Date = Date string

datatype ExtraRoot = ExtraRoot (root_sha: string) (updatedAt: Date)

record RepoConfig =
  owner :: string
  name :: string

datatype StorageConfig = local | github RepoConfig | cloud

record Config =
  storage :: StorageConfig
  cloud_project :: "string option"

text \<open>
  Modelled from the spec: \<open>serializeRepoConfig\<close> is imported from another module; the
  scope key of a remote repository is the canonical \<open>owner/name\<close> string.
\<close>

definition serializeRepoConfig :: "RepoConfig \<Rightarrow> string" where
  "serializeRepoConfig repo = owner repo @ ''/'' @ name repo"

text \<open>
  The key of the registry in \<open>localStorage\<close>; \<open>cloud_project\<close> is \<open>config.cloud?.project\<close>,
  and an absent or empty project falls back to \<open>cloud\<close>.
\<close>

definition rootsKey :: "Config \<Rightarrow> string" where
  "rootsKey config =
     ''ks-roots-'' @
     (case storage config of
        local \<Rightarrow> ''local''
      | github repo \<Rightarrow> serializeRepoConfig repo
      | cloud \<Rightarrow>
          (case cloud_project config of
             None \<Rightarrow> ''cloud''
           | Some project \<Rightarrow> if project = '''' then ''cloud'' else project))"

text \<open>
  \<open>extraRootsSchema\<close>: an object whose every property is an object with string properties
  \<open>sha\<close> and \<open>updatedAt\<close>; the latter becomes a date.
\<close>

definition extraRootsSchema_entry :: "js_value \<Rightarrow> ExtraRoot option" where
  "extraRootsSchema_entry v =
     (case v of
        VObj props \<Rightarrow>
          (case (map_of props ''sha'', map_of props ''updatedAt'') of
             (Some (VStr s), Some (VStr u)) \<Rightarrow> Some (ExtraRoot s (Date u))
           | _ \<Rightarrow> None)
      | _ \<Rightarrow> None)"

definition extraRootsSchema_parse :: "js_value \<Rightarrow> (string \<times> ExtraRoot) list option" where
  "extraRootsSchema_parse v =
     (case v of
        VObj props \<Rightarrow>
          those (map (\<lambda>(k, x). map_option (Pair k) (extraRootsSchema_entry x)) props)
      | _ \<Rightarrow> None)"

text \<open>
  The body of the \<open>try\<close> block of \<open>getExtraRoots\<close>: \<open>JSON.parse\<close> (a parameter; \<open>None\<close>
  is its syntax error) and the schema may throw.
\<close>

datatype thrown = SyntaxError | ZodError

definition getExtraRoots_try ::
  "(string \<Rightarrow> js_value option) \<Rightarrow> string \<Rightarrow> thrown + (string \<times> ExtraRoot) list" where
  "getExtraRoots_try JSON_parse val =
     (case JSON_parse val of
        None \<Rightarrow> Inl SyntaxError
      | Some parsed \<Rightarrow>
          (case extraRootsSchema_parse parsed of
             None \<Rightarrow> Inl ZodError
           | Some result \<Rightarrow> Inr result))"

definition getExtraRoots ::
  "(string \<Rightarrow> js_value option) \<Rightarrow> Config \<Rightarrow> ObjectStore \<Rightarrow> (string \<times> ExtraRoot) list" where
  "getExtraRoots JSON_parse config st =
     (case localStorage st (rootsKey config) of
        None \<Rightarrow> []
      | Some val \<Rightarrow>
          if val = '''' then []
          else (case getExtraRoots_try JSON_parse val of
                  Inl err \<Rightarrow> []
                | Inr result \<Rightarrow> result))"

section \<open>Garbage collection\<close>

text \<open>
  The scan of \<open>garbageCollectGitObjects\<close> runs over the map that \<open>getStoredTrees\<close> returns,
  whose keys are strings, and validates each entry list again.
\<close>

fun gc_scan ::
  "StoredTrees \<Rightarrow> StoredTrees \<times> IDBValidKey list \<Rightarrow> StoredTrees \<times> IDBValidKey list" where
  "gc_scan [] acc = acc"
| "gc_scan ((s, t) # rest) (treesToDelete, invalidTrees) =
     (case treeSchema_safeParse (js_of_entries t) of
        Some data \<Rightarrow> gc_scan rest (Map_set s data treesToDelete, invalidTrees)
      | None \<Rightarrow> gc_scan rest (treesToDelete, invalidTrees @ [StrKey s]))"

text \<open>
  The marking loop iterates over the set \<open>queue\<close> while adding to it: \<open>i\<close> is the position
  of the iterator in the insertion order.
\<close>

function gc_mark ::
  "string list \<Rightarrow> nat \<Rightarrow> IDBValidKey list \<Rightarrow> StoredTrees \<Rightarrow> IDBValidKey list \<times> StoredTrees" where
  "gc_mark queue i blobsToDelete treesToDelete =
     (if i < length queue then
        (let s = queue ! i
         in if StrKey s \<in> set blobsToDelete then
              gc_mark queue (Suc i) (Set_delete (StrKey s) blobsToDelete) treesToDelete
            else
              (case map_of treesToDelete s of
                 Some t \<Rightarrow>
                   gc_mark (foldl (\<lambda>q e. Set_add (sha e) q) queue t) (Suc i) blobsToDelete
                     (Map_delete s treesToDelete)
               | None \<Rightarrow> gc_mark queue (Suc i) blobsToDelete treesToDelete))
      else (blobsToDelete, treesToDelete))"
  by pat_completeness auto
termination
proof (relation "measures [\<lambda>(q, i, b, t). length t, \<lambda>(q, i, b, t). length q - i]")
  fix queue :: "string list" and i blobsToDelete and treesToDelete :: StoredTrees and s t
  assume "map_of treesToDelete s = Some t"
  then have "(s, t) \<in> set treesToDelete" by (rule map_of_SomeD)
  then have "length (filter (\<lambda>(k, _). s \<noteq> k) treesToDelete) < length treesToDelete"
    by (rule length_filter_less) simp
  then show "((foldl (\<lambda>q e. Set_add (sha e) q) queue t, Suc i, blobsToDelete,
               Map_delete s treesToDelete),
              (queue, i, blobsToDelete, treesToDelete))
             \<in> measures [\<lambda>(q, i, b, t). length t, \<lambda>(q, i, b, t). length q - i]"
    by (simp add: Map_delete_def AList.delete_eq)
qed auto

declare gc_mark.simps [simp del]

definition garbageCollectGitObjects ::
  "(string \<Rightarrow> js_value option) \<Rightarrow> Config \<Rightarrow> string list \<Rightarrow> ObjectStore \<Rightarrow> ObjectStore" where
  "garbageCollectGitObjects JSON_parse config roots0 st =
     (let roots = roots0 @ map (\<lambda>x. root_sha (snd x)) (getExtraRoots JSON_parse config st)
      in case getStoredTrees st of
        (stored, st1) \<Rightarrow>
          (case gc_scan stored ([], []) of
             (treesToDelete0, invalidTrees) \<Rightarrow>
               (let allBlobs = map fst (blobStore st1);
                    queue = new_Set roots
                in case gc_mark queue 0 (new_Set allBlobs) treesToDelete0 of
                  (blobsToDelete, treesToDelete) \<Rightarrow>
                    (let treeKeysToDelete = map (\<lambda>kv. StrKey (fst kv)) treesToDelete @ invalidTrees
                     in st1\<lparr>blobStore := delMany blobsToDelete (blobStore st1),
                            treeStore := delMany treeKeysToDelete (treeStore st1),
                            storedTreeCache :=
                              map_option
                                (\<lambda>cache. foldl
                                   (\<lambda>c k. case k of StrKey s \<Rightarrow> Map_delete s c | _ \<Rightarrow> c)
                                   cache treeKeysToDelete)
                                (storedTreeCache st1)\<rparr>))))"

definition clearObjectStore :: "Config \<Rightarrow> ObjectStore \<Rightarrow> ObjectStore" where
  "clearObjectStore config st =
     st\<lparr>localStorage := (localStorage st)(rootsKey config := None),
        blobStore := [],
        treeStore := []\<rparr>"

section \<open>Incomplete stored trees\<close>

text \<open>
  \<open>torn trees s\<close>: the sha \<open>s\<close>, or a sha reachable from it through entries of mode
  \<open>040000\<close>, is not a key of the map.
\<close>

inductive torn :: "StoredTrees \<Rightarrow> string \<Rightarrow> bool" for trees where
  missing: "map_of trees s = None \<Longrightarrow> torn trees s"
| child: "map_of trees s = Some es \<Longrightarrow> e \<in> set es \<Longrightarrow> mode e = ''040000'' \<Longrightarrow>
          torn trees (sha e) \<Longrightarrow> torn trees s"

code_pred torn .

definition returns_undefined :: "StoredTrees \<Rightarrow> string \<Rightarrow> bool" where
  "returns_undefined trees s \<longleftrightarrow>
     (\<exists>n. constructTreeFromStoredTrees n s trees '''' = Returns None)"

definition no_tree :: "'a option outcome \<Rightarrow> bool" where
  "no_tree r \<longleftrightarrow> r = OutOfFuel \<or> r = Returns None"

definition cyclic_trees :: StoredTrees where
  "cyclic_trees =
     [(''A'', [\<lparr>path = ''p'', sha = ''A'', mode = ''040000''\<rparr>,
               \<lparr>path = ''q'', sha = ''M'', mode = ''040000''\<rparr>])]"

definition torn_trees :: StoredTrees where
  "torn_trees =
     [(''A'', [\<lparr>path = ''x'', sha = ''B'', mode = ''100644''\<rparr>,
               \<lparr>path = ''q'', sha = ''M'', mode = ''040000''\<rparr>])]"

section \<open>Flattening a tree\<close>

text \<open>
  \<open>path.replace(/.*\\//, '')\<close>: the first match of the pattern is removed. The dot does
  not match a line terminator, so the match lies in the first line that has a slash and
  ends at the last slash of that line. (Line feed and carriage return are the line
  terminators among the 8-bit characters.)
\<close>

definition line_terminator :: "char \<Rightarrow> bool" where
  "line_terminator c \<longleftrightarrow> c = CHR 0x0A \<or> c = CHR 0x0D"

function replace_dirs :: "string \<Rightarrow> string" where
  "replace_dirs s =
     (let line = takeWhile (\<lambda>c. \<not> line_terminator c) s;
          rest = dropWhile (\<lambda>c. \<not> line_terminator c) s
      in if CHR ''/'' \<in> set line then
           rev (takeWhile (\<lambda>c. c \<noteq> CHR ''/'') (rev line)) @ rest
         else (case rest of
                 [] \<Rightarrow> line
               | t # rest' \<Rightarrow> line @ t # replace_dirs rest'))"
  by pat_completeness auto
termination
proof (relation "measure length")
  fix s :: string and line rest t rest'
  assume "rest = dropWhile (\<lambda>c. \<not> line_terminator c) s" and "rest = t # rest'"
  then have "length (t # rest') \<le> length s"
    by (metis length_dropWhile_le)
  then show "(rest', s) \<in> measure length" by simp
qed simp

declare replace_dirs.simps [simp del]

fun collectTrees ::
  "string \<Rightarrow> TreeMap \<Rightarrow> (string \<times> StoredTreeEntry list) list \<Rightarrow>
   (string \<times> StoredTreeEntry list) list"
and collectTrees_loop ::
  "TreeMap \<Rightarrow> StoredTreeEntry list \<Rightarrow> (string \<times> StoredTreeEntry list) list \<Rightarrow>
   StoredTreeEntry list \<times> (string \<times> StoredTreeEntry list) list"
where
  "collectTrees s childMap allTrees =
     (case collectTrees_loop childMap [] allTrees of
        (entries, allTrees') \<Rightarrow> allTrees' @ [(s, entries)])"
| "collectTrees_loop [] entries allTrees = (entries, allTrees)"
| "collectTrees_loop ((p, TreeNode e ch) # rest) entries allTrees =
     collectTrees_loop rest
       (entries @ [\<lparr>path = replace_dirs p, sha = sha e, mode = mode e\<rparr>])
       (case ch of Some c \<Rightarrow> collectTrees (sha e) c allTrees | None \<Rightarrow> allTrees)"

section \<open>Well-formed trees\<close>

text \<open>
  A well-formed tree of the data model, below the path \<open>parentPath\<close>: keys are single
  path segments and pairwise different, an entry holds its full path, a node has children
  exactly when its mode is \<open>040000\<close> and its type \<open>tree\<close>, and the type of a leaf follows
  from its mode. \<open>entries_of\<close> is the serialization of the immediate children;
  \<open>sha_matches h\<close> says that every tree node's sha is the hash \<open>h\<close> of that serialization.
\<close>

fun well_formed :: "string \<Rightarrow> TreeMap \<Rightarrow> bool" where
  "well_formed parentPath [] = True"
| "well_formed parentPath ((k, TreeNode e ch) # rest) =
     (CHR ''/'' \<notin> set k \<and> k \<notin> fst ` set rest \<and>
      path e = (if parentPath = '''' then '''' else parentPath @ ''/'') @ k \<and>
      (case ch of
         None \<Rightarrow> mode e \<noteq> ''040000'' \<and> type e = (if mode e = ''120000'' then symlink else blob)
       | Some c \<Rightarrow>
           mode e = ''040000'' \<and> type e = tree \<and>
           well_formed ((if parentPath = '''' then '''' else parentPath @ ''/'') @ k) c) \<and>
      well_formed parentPath rest)"

definition entries_of :: "TreeMap \<Rightarrow> StoredTreeEntry list" where
  "entries_of c = map (\<lambda>kn. \<lparr>path = fst kn, sha = sha (entry (snd kn)), mode = mode (entry (snd kn))\<rparr>) c"

fun sha_matches :: "(StoredTreeEntry list \<Rightarrow> string) \<Rightarrow> TreeMap \<Rightarrow> bool" where
  "sha_matches h [] = True"
| "sha_matches h ((k, TreeNode e ch) # rest) =
     ((case ch of None \<Rightarrow> True | Some c \<Rightarrow> sha e = h (entries_of c) \<and> sha_matches h c) \<and>
      sha_matches h rest)"

fun nodes_in :: "(string \<times> StoredTreeEntry list) set \<Rightarrow> TreeMap \<Rightarrow> bool" where
  "nodes_in S [] = True"
| "nodes_in S ((k, TreeNode e None) # rest) = nodes_in S rest"
| "nodes_in S ((k, TreeNode e (Some c)) # rest) =
     ((sha e, entries_of c) \<in> S \<and> nodes_in S c \<and> nodes_in S rest)"

section \<open>Auxiliary notions for the proofs\<close>

text \<open>
  What one entry of the new tree contributes to the additions and to the deletions of the
  first loop, and what one surviving key of the old tree contributes in the second loop.
\<close>

definition old_children :: "TreeNode option \<Rightarrow> TreeMap" where
  "old_children oldNode =
     (case oldNode of None \<Rightarrow> [] | Some n \<Rightarrow> (case children n of None \<Rightarrow> [] | Some oc \<Rightarrow> oc))"

definition changed :: "TreeMap \<Rightarrow> string \<Rightarrow> TreeNode \<Rightarrow> bool" where
  "changed oldTree p n \<longleftrightarrow>
     map_of oldTree p = None \<or> sha (entry (the (map_of oldTree p))) \<noteq> sha (entry n)"

definition entry_additions :: "TreeMap \<Rightarrow> string \<times> TreeNode \<Rightarrow> (string \<times> string) list" where
  "entry_additions oldTree pn =
     (case pn of (p, n) \<Rightarrow>
        (if changed oldTree p n \<and> type (entry n) = blob then [(p, sha (entry n))] else []) @
        (case children n of
           None \<Rightarrow> []
         | Some c \<Rightarrow>
             if changed oldTree p n \<and> type (entry n) = tree
             then map (\<lambda>(ap, s). (p @ ''/'' @ ap, s))
                    (additions (diffTrees (old_children (map_of oldTree p)) c))
             else []))"

definition entry_deletions :: "TreeMap \<Rightarrow> string \<times> TreeNode \<Rightarrow> string list" where
  "entry_deletions oldTree pn =
     (case pn of (p, n) \<Rightarrow>
        (case children n of
           None \<Rightarrow> []
         | Some c \<Rightarrow>
             if changed oldTree p n \<and> type (entry n) = tree
             then map (\<lambda>d. p @ ''/'' @ d)
                    (deletions (diffTrees (old_children (map_of oldTree p)) c))
             else []))"

definition deletion_paths :: "TreeMap \<Rightarrow> string \<Rightarrow> string list" where
  "deletion_paths oldTree deletion =
     (case map_of oldTree deletion of
        Some (TreeNode e (Some c)) \<Rightarrow>
          if type e = tree then map (\<lambda>p. deletion @ ''/'' @ p) (getLeafPaths c) else [deletion]
      | _ \<Rightarrow> [deletion])"

fun depth :: "TreeMap \<Rightarrow> nat" where
  "depth [] = 0"
| "depth ((k, TreeNode e None) # rest) = depth rest"
| "depth ((k, TreeNode e (Some c)) # rest) = max (Suc (depth c)) (depth rest)"

fun segment_keys :: "TreeMap \<Rightarrow> bool" where
  "segment_keys [] = True"
| "segment_keys ((k, TreeNode e ch) # rest) =
     (CHR ''/'' \<notin> set k \<and> k \<notin> fst ` set rest \<and>
      (case ch of None \<Rightarrow> True | Some c \<Rightarrow> segment_keys c) \<and> segment_keys rest)"

text \<open>
  The number of leaf entries (blobs and symlinks) of a directory, over all its nested
  subdirectories: the \<open>N\<close> of a directory delete.
\<close>

fun leaf_count :: "TreeMap \<Rightarrow> nat" where
  "leaf_count [] = 0"
| "leaf_count ((p, TreeNode e ch) # rest) =
     (if type e = blob \<or> type e = symlink then 1
      else (case ch of None \<Rightarrow> 0 | Some c \<Rightarrow> leaf_count c)) + leaf_count rest"

definition head_seg :: "string \<Rightarrow> string" where
  "head_seg s = takeWhile (\<lambda>c. c \<noteq> CHR ''/'') s"

definition disjoint_diff :: "Diff \<Rightarrow> bool" where
  "disjoint_diff d \<longleftrightarrow> fst ` set (additions d) \<inter> set (deletions d) = {}"

section \<open>Example trees\<close>

definition leaf :: "string \<Rightarrow> string \<Rightarrow> TreeNode" where
  "leaf p s = TreeNode \<lparr>path = p, sha = s, mode = ''100644'', type = blob\<rparr> None"

definition dir :: "string \<Rightarrow> string \<Rightarrow> TreeMap \<Rightarrow> TreeNode" where
  "dir p s c = TreeNode \<lparr>path = p, sha = s, mode = ''040000'', type = tree\<rparr> (Some c)"

definition removed_dir :: TreeMap where
  "removed_dir =
     [(''e.md'', leaf ''d/e.md'' ''4''),
      (''f'', dir ''d/f'' ''7'' [(''g.md'', leaf ''d/f/g.md'' ''8'')])]"

definition committed_tree :: TreeMap where
  "committed_tree = [(''a.md'', leaf ''a.md'' ''1''), (''d'', dir ''d'' ''5'' removed_dir)]"

definition current_tree :: TreeMap where
  "current_tree =
     [(''a.md'', leaf ''a.md'' ''2''),
      (''b'', dir ''b'' ''6'' [(''c.md'', leaf ''b/c.md'' ''3'')])]"

definition blob_side :: TreeMap where
  "blob_side = [(''p'', leaf ''p'' ''1'')]"

definition tree_side :: TreeMap where
  "tree_side = [(''p'', dir ''p'' ''2'' [(''x'', leaf ''p/x'' ''3'')])]"

definition example_hash :: "StoredTreeEntry list \<Rightarrow> string" where
  "example_hash es =
     (if es = [\<lparr>path = ''c.md'', sha = ''3'', mode = ''100644''\<rparr>] then ''6'' else ''9'')"




section \<open>Facts about the containers\<close>

lemma set_foldl_Set_add: "set (foldl (\<lambda>s x. Set_add x s) acc xs) = set acc \<union> set xs"
  by (induction xs arbitrary: acc) (auto simp: Set_add_def)

lemma set_new_Set: "set (new_Set xs) = set xs"
  by (simp add: new_Set_def set_foldl_Set_add)

lemma foldl_Set_add_distinct:
  "distinct (acc @ xs) \<Longrightarrow> foldl (\<lambda>s x. Set_add x s) acc xs = acc @ xs"
  by (induction xs arbitrary: acc) (auto simp: Set_add_def)

lemma new_Set_distinct: "distinct xs \<Longrightarrow> new_Set xs = xs"
  using foldl_Set_add_distinct [of "[]" xs] by (simp add: new_Set_def)

section \<open>Properties of the tree diff\<close>

text \<open>
  An entry of the new tree whose path the old tree holds with the same sha only leaves
  the set of candidate deletions: the loop neither recurses nor records anything for it.
\<close>

lemma diffTrees_loop_skip:
  "(\<And>p n. (p, n) \<in> set newTree \<Longrightarrow>
      \<exists>on. map_of oldTree p = Some on \<and> sha (entry on) = sha (entry n)) \<Longrightarrow>
   diffTrees_loop oldTree newTree (adds, dels, allDeletions) =
     (adds, filter (\<lambda>x. x \<notin> fst ` set newTree) dels, allDeletions)"
proof (induction newTree arbitrary: dels)
  case Nil
  then show ?case by simp
next
  case (Cons a newTree)
  obtain p e ch where a: "a = (p, TreeNode e ch)"
    by (metis TreeNode.exhaust surj_pair)
  from Cons.prems [of p "TreeNode e ch"] a
  obtain on where on: "map_of oldTree p = Some on" "sha (entry on) = sha e"
    by auto
  have "diffTrees_loop oldTree (a # newTree) (adds, dels, allDeletions) =
        diffTrees_loop oldTree newTree (adds, Set_delete p dels, allDeletions)"
    using on by (simp add: a)
  also have "\<dots> = (adds, filter (\<lambda>x. x \<notin> fst ` set newTree) (Set_delete p dels), allDeletions)"
    using Cons.prems by (intro Cons.IH) auto
  also have "filter (\<lambda>x. x \<notin> fst ` set newTree) (Set_delete p dels) =
             filter (\<lambda>x. x \<notin> fst ` set (a # newTree)) dels"
    by (auto simp: Set_delete_def a intro: filter_cong)
  finally show ?case .
qed

text \<open>
  Claim C4. The diff of a tree with itself is empty: \<open>diffTrees T T\<close> has no additions and
  no deletions, since every path is present on both sides with an equal sha and is
  skipped. A tree is a \<open>Map\<close>, so its keys are pairwise different.
\<close>

theorem diffTrees_reflexive:
  assumes "distinct (map fst T)"
  shows "diffTrees T T = \<lparr>additions = [], deletions = []\<rparr>"
proof -
  have "\<And>p n. (p, n) \<in> set T \<Longrightarrow> \<exists>on. map_of T p = Some on \<and> sha (entry on) = sha (entry n)"
    using assms by (auto dest: map_of_is_SomeI)
  then have "diffTrees_loop T T ([], new_Set (map fst T), []) =
             ([], filter (\<lambda>x. x \<notin> fst ` set T) (new_Set (map fst T)), [])"
    by (rule diffTrees_loop_skip)
  moreover have "filter (\<lambda>x. x \<notin> fst ` set T) (new_Set (map fst T)) = []"
    by (simp add: filter_empty_conv set_new_Set)
  ultimately show ?thesis by simp
qed

theorem diffTrees_reflexive_witness:
  "distinct (map fst
     [(''a.md'', TreeNode \<lparr>path = ''a.md'', sha = ''1'', mode = ''100644'', type = blob\<rparr> None),
      (''b'', TreeNode \<lparr>path = ''b'', sha = ''2'', mode = ''040000'', type = tree\<rparr>
         (Some [(''c.md'',
            TreeNode \<lparr>path = ''b/c.md'', sha = ''3'', mode = ''100644'', type = blob\<rparr> None)]))])
   \<and> diffTrees
     [(''a.md'', TreeNode \<lparr>path = ''a.md'', sha = ''1'', mode = ''100644'', type = blob\<rparr> None),
      (''b'', TreeNode \<lparr>path = ''b'', sha = ''2'', mode = ''040000'', type = tree\<rparr>
         (Some [(''c.md'',
            TreeNode \<lparr>path = ''b/c.md'', sha = ''3'', mode = ''100644'', type = blob\<rparr> None)]))]
     [(''a.md'', TreeNode \<lparr>path = ''a.md'', sha = ''1'', mode = ''100644'', type = blob\<rparr> None),
      (''b'', TreeNode \<lparr>path = ''b'', sha = ''2'', mode = ''040000'', type = tree\<rparr>
         (Some [(''c.md'',
            TreeNode \<lparr>path = ''b/c.md'', sha = ''3'', mode = ''100644'', type = blob\<rparr> None)]))]
   = \<lparr>additions = [], deletions = []\<rparr>"
proof -
  have d: "distinct (map fst
     [(''a.md'', TreeNode \<lparr>path = ''a.md'', sha = ''1'', mode = ''100644'', type = blob\<rparr> None),
      (''b'', TreeNode \<lparr>path = ''b'', sha = ''2'', mode = ''040000'', type = tree\<rparr>
         (Some [(''c.md'',
            TreeNode \<lparr>path = ''b/c.md'', sha = ''3'', mode = ''100644'', type = blob\<rparr> None)]))])"
    by simp
  show ?thesis using d diffTrees_reflexive [OF d] by blast
qed

section \<open>The diff as a function of its entries\<close>

declare diffTrees.simps [simp del]

lemma Set_delete_filter_notin:
  "filter (\<lambda>x. x \<notin> S) (Set_delete p dels) = filter (\<lambda>x. x \<noteq> p \<and> x \<notin> S) dels"
  by (auto simp: Set_delete_def intro: filter_cong)

lemma diffTrees_loop_eq:
  "diffTrees_loop oldTree newTree (adds, dels, allDeletions) =
     (adds @ concat (map (entry_additions oldTree) newTree),
      filter (\<lambda>x. x \<notin> fst ` set newTree) dels,
      allDeletions @ concat (map (entry_deletions oldTree) newTree))"
proof (induction newTree arbitrary: adds dels allDeletions)
  case Nil
  then show ?case by simp
next
  case (Cons a newTree)
  obtain p e ch where a: "a = (p, TreeNode e ch)"
    by (metis TreeNode.exhaust surj_pair)
  show ?case
    unfolding a
    by (cases "map_of oldTree p"; cases ch)
       (simp_all add: Cons.IH Let_def entry_additions_def entry_deletions_def old_children_def
          changed_def Set_delete_filter_notin)
qed

lemma diffTrees_deletions_eq:
  "diffTrees_deletions oldTree ds allDeletions =
     allDeletions @ concat (map (deletion_paths oldTree) ds)"
proof (induction ds arbitrary: allDeletions)
  case Nil
  then show ?case by simp
next
  case (Cons d ds)
  show ?case
    by (cases "map_of oldTree d")
       (auto simp: Cons.IH deletion_paths_def Let_def split: TreeNode.splits option.splits)
qed

lemma diffTrees_eq:
  "diffTrees oldTree newTree =
     \<lparr>additions = concat (map (entry_additions oldTree) newTree),
      deletions = concat (map (entry_deletions oldTree) newTree) @
        concat (map (deletion_paths oldTree)
          (filter (\<lambda>x. x \<notin> fst ` set newTree) (new_Set (map fst oldTree))))\<rparr>"
  by (simp add: diffTrees.simps diffTrees_loop_eq diffTrees_deletions_eq)

lemma head_seg_key: "CHR ''/'' \<notin> set k \<Longrightarrow> head_seg k = k"
  by (induction k) (auto simp: head_seg_def)

lemma head_seg_prefixed: "CHR ''/'' \<notin> set k \<Longrightarrow> head_seg (k @ CHR ''/'' # x) = k"
  by (induction k) (auto simp: head_seg_def)

lemma entry_additions_head:
  "CHR ''/'' \<notin> set k \<Longrightarrow> a \<in> set (entry_additions oldTree (k, n)) \<Longrightarrow> head_seg (fst a) = k"
  by (auto simp: entry_additions_def head_seg_key head_seg_prefixed
      split: option.splits if_splits)

lemma entry_deletions_head:
  "CHR ''/'' \<notin> set k \<Longrightarrow> d \<in> set (entry_deletions oldTree (k, n)) \<Longrightarrow> head_seg d = k"
  by (auto simp: entry_deletions_def head_seg_prefixed split: option.splits if_splits)

lemma deletion_paths_cases:
  "deletion_paths oldTree q = [q] \<or>
   (\<exists>c. deletion_paths oldTree q = map (\<lambda>p. q @ ''/'' @ p) (getLeafPaths c))"
  by (simp add: deletion_paths_def split: option.splits TreeNode.splits) blast

lemma deletion_paths_head:
  assumes "CHR ''/'' \<notin> set q" and "d \<in> set (deletion_paths oldTree q)"
  shows "head_seg d = q"
proof -
  from deletion_paths_cases [of oldTree q] assms(2)
  have "d = q \<or> (\<exists>x. d = q @ CHR ''/'' # x)"
    by auto
  then show ?thesis
    using assms(1) by (auto simp: head_seg_key head_seg_prefixed)
qed

lemma segment_keys_slash: "segment_keys t \<Longrightarrow> (k, n) \<in> set t \<Longrightarrow> CHR ''/'' \<notin> set k"
  by (induction t rule: segment_keys.induct) auto

lemma segment_keys_distinct: "segment_keys t \<Longrightarrow> distinct (map fst t)"
  by (induction t rule: segment_keys.induct) auto

lemma segment_keys_child:
  "segment_keys t \<Longrightarrow> (k, TreeNode e (Some c)) \<in> set t \<Longrightarrow> segment_keys c"
  by (induction t rule: segment_keys.induct) auto

lemma segment_keys_old_children:
  "segment_keys t \<Longrightarrow> segment_keys (old_children (map_of t k))"
  by (auto simp: old_children_def split: option.splits
      dest!: map_of_SomeD intro: segment_keys_child) (metis TreeNode.collapse segment_keys_child)

lemma diffTrees_disjoint_from_entries:
  assumes old: "segment_keys oldTree" and new: "segment_keys newTree"
    and each: "\<And>k n. (k, n) \<in> set newTree \<Longrightarrow>
      fst ` set (entry_additions oldTree (k, n)) \<inter> set (entry_deletions oldTree (k, n)) = {}"
  shows "disjoint_diff (diffTrees oldTree newTree)"
proof -
  have False if a: "a \<in> set (additions (diffTrees oldTree newTree))"
    and d: "fst a \<in> set (deletions (diffTrees oldTree newTree))" for a
  proof -
    from a obtain k n where kn: "(k, n) \<in> set newTree" "a \<in> set (entry_additions oldTree (k, n))"
      by (auto simp: diffTrees_eq)
    have hk: "head_seg (fst a) = k"
      using segment_keys_slash [OF new kn(1)] kn(2) by (rule entry_additions_head)
    from d consider
      (loop) k' n' where "(k', n') \<in> set newTree" "fst a \<in> set (entry_deletions oldTree (k', n'))"
      | (gone) q where "q \<in> fst ` set oldTree" "q \<notin> fst ` set newTree"
          "fst a \<in> set (deletion_paths oldTree q)"
      by (auto simp: diffTrees_eq set_new_Set)
    then show False
    proof cases
      case loop
      have "head_seg (fst a) = k'"
        using segment_keys_slash [OF new loop(1)] loop(2) by (rule entry_deletions_head)
      with hk have "k' = k" by simp
      with loop(1) kn(1) have "n' = n"
        using segment_keys_distinct [OF new] by (meson eq_key_imp_eq_value)
      with loop(2) \<open>k' = k\<close> kn(2) each [OF kn(1)] show False by auto
    next
      case gone
      from gone(1) obtain m where "(q, m) \<in> set oldTree" by auto
      then have "head_seg (fst a) = q"
        using segment_keys_slash [OF old] gone(3) deletion_paths_head by blast
      with hk gone(2) kn(1) show False by force
    qed
  qed
  then show ?thesis unfolding disjoint_diff_def by auto
qed

lemma entry_disjoint:
  "segment_keys oldTree \<Longrightarrow> segment_keys newTree \<Longrightarrow> (k, n) \<in> set newTree \<Longrightarrow>
     fst ` set (entry_additions oldTree (k, n)) \<inter> set (entry_deletions oldTree (k, n)) = {}"
proof (induction newTree arbitrary: oldTree k n rule: depth.induct)
  case 1
  then show ?case by simp
next
  case (2 k' e rest)
  show ?case
  proof (cases "(k, n) = (k', TreeNode e None)")
    case True
    then show ?thesis by (simp add: entry_deletions_def)
  next
    case False
    then have "(k, n) \<in> set rest" using "2.prems"(3) by auto
    moreover have "segment_keys rest" using "2.prems"(2) by simp
    ultimately show ?thesis using "2.IH" "2.prems"(1) by blast
  qed
next
  case (3 k' e c rest)
  show ?case
  proof (cases "(k, n) = (k', TreeNode e (Some c))")
    case False
    then have "(k, n) \<in> set rest" using "3.prems"(3) by auto
    moreover have "segment_keys rest" using "3.prems"(2) by simp
    ultimately show ?thesis using "3.IH"(2) "3.prems"(1) by blast
  next
    case True
    let ?oc = "old_children (map_of oldTree k)"
    have oc: "segment_keys ?oc"
      using "3.prems"(1) by (rule segment_keys_old_children)
    have c: "segment_keys c" using "3.prems"(2) by simp
    have slash: "CHR ''/'' \<notin> set k" using "3.prems"(2) True by simp
    have "disjoint_diff (diffTrees ?oc c)"
      using oc c "3.IH"(1) [OF oc c] by (rule diffTrees_disjoint_from_entries)
    then have inner: "\<And>ap s. (ap, s) \<in> set (additions (diffTrees ?oc c)) \<Longrightarrow>
        ap \<notin> set (deletions (diffTrees ?oc c))"
      unfolding disjoint_diff_def by force
    show ?thesis
      using True slash inner
      by (auto simp: entry_additions_def entry_deletions_def split: if_splits)
  qed
qed

text \<open>
  Claim C5. No path is both added and deleted by one diff: the paths of the additions and
  the deletions of \<open>diffTrees oldTree newTree\<close> are disjoint. The trees are those of the
  data model: at every level a \<open>Map\<close> (keys pairwise different) from single path segments
  (no \<open>/\<close> in a key) to nodes.
\<close>

theorem diffTrees_disjoint:
  assumes "segment_keys oldTree" and "segment_keys newTree"
  shows "fst ` set (additions (diffTrees oldTree newTree)) \<inter>
         set (deletions (diffTrees oldTree newTree)) = {}"
  using diffTrees_disjoint_from_entries [OF assms entry_disjoint [OF assms]]
  by (simp add: disjoint_diff_def)

theorem diffTrees_disjoint_witness:
  "segment_keys committed_tree \<and> segment_keys current_tree \<and>
   fst ` set (additions (diffTrees committed_tree current_tree)) \<inter>
   set (deletions (diffTrees committed_tree current_tree)) = {}"
proof -
  have a: "segment_keys committed_tree"
    by (simp add: committed_tree_def removed_dir_def leaf_def dir_def)
  have b: "segment_keys current_tree"
    by (simp add: current_tree_def leaf_def dir_def)
  show ?thesis using a b diffTrees_disjoint [OF a b] by blast
qed

section \<open>Deleted directories\<close>

lemma distinct_foldl_Set_add:
  "distinct acc \<Longrightarrow> distinct (foldl (\<lambda>s x. Set_add x s) acc xs)"
  by (induction xs arbitrary: acc) (auto simp: Set_add_def)

lemma distinct_new_Set: "distinct (new_Set xs)"
  by (simp add: new_Set_def distinct_foldl_Set_add)

lemma foldl_Set_add_removeAll:
  "removeAll p (foldl (\<lambda>s x. Set_add x s) acc xs) =
   foldl (\<lambda>s x. Set_add x s) (removeAll p acc) (removeAll p xs)"
proof (induction xs arbitrary: acc)
  case Nil
  then show ?case by simp
next
  case (Cons x xs)
  have "removeAll p (Set_add x acc) =
        (if x = p then removeAll p acc else Set_add x (removeAll p acc))"
    by (auto simp: Set_add_def)
  then show ?case by (simp add: Cons.IH)
qed

lemma new_Set_removeAll: "new_Set (removeAll p xs) = removeAll p (new_Set xs)"
  by (simp add: new_Set_def foldl_Set_add_removeAll)

lemma length_getLeafPaths: "length (getLeafPaths t) = leaf_count t"
proof (induction t rule: getLeafPaths.induct)
  case 1
  then show ?case by simp
next
  case (2 p e ch rest)
  then show ?case
    by (cases "type e"; cases ch) simp_all
qed

lemma map_of_Map_delete: "k \<noteq> p \<Longrightarrow> map_of (Map_delete p m) k = map_of m k"
  by (simp add: Map_delete_def)

lemma changed_Map_delete: "k \<noteq> p \<Longrightarrow> changed (Map_delete p oldTree) k n = changed oldTree k n"
  by (simp add: changed_def map_of_Map_delete)

lemma entry_deletions_Map_delete:
  "k \<noteq> p \<Longrightarrow> entry_deletions (Map_delete p oldTree) (k, n) = entry_deletions oldTree (k, n)"
  by (cases "children n")
     (simp_all add: entry_deletions_def changed_Map_delete map_of_Map_delete)

lemma entry_additions_Map_delete:
  "k \<noteq> p \<Longrightarrow> entry_additions (Map_delete p oldTree) (k, n) = entry_additions oldTree (k, n)"
  by (cases "children n")
     (simp_all add: entry_additions_def changed_Map_delete map_of_Map_delete)

lemma deletion_paths_Map_delete:
  "q \<noteq> p \<Longrightarrow> deletion_paths (Map_delete p oldTree) q = deletion_paths oldTree q"
  by (simp add: deletion_paths_def map_of_Map_delete)

lemma loop_deletions_Map_delete:
  assumes "p \<notin> fst ` set newTree"
  shows "concat (map (entry_deletions (Map_delete p oldTree)) newTree) =
         concat (map (entry_deletions oldTree) newTree)"
proof -
  have "map (entry_deletions (Map_delete p oldTree)) newTree =
        map (entry_deletions oldTree) newTree"
  proof (intro map_cong refl)
    fix x assume x: "x \<in> set newTree"
    obtain k n where kn: "x = (k, n)" by (cases x)
    with x assms have "k \<noteq> p" by force
    then show "entry_deletions (Map_delete p oldTree) x = entry_deletions oldTree x"
      unfolding kn by (rule entry_deletions_Map_delete)
  qed
  then show ?thesis by (rule arg_cong)
qed

lemma filter_removeAll: "filter P (removeAll p xs) = removeAll p (filter P xs)"
  by (induction xs) auto

lemma keys_Map_delete: "map fst (Map_delete p m) = removeAll p (map fst m)"
  by (simp add: Map_delete_def delete_keys)

lemma removeAll_split:
  assumes "distinct K" and "p \<in> set K"
  obtains K1 K2 where "K = K1 @ p # K2" and "removeAll p K = K1 @ K2"
    and "p \<notin> set K1" and "p \<notin> set K2"
proof -
  from assms(2) obtain K1 K2 where K: "K = K1 @ p # K2"
    by (auto dest: split_list)
  with assms(1) have "p \<notin> set K1" "p \<notin> set K2" by auto
  then have "removeAll p K = K1 @ K2" by (simp add: K)
  with K \<open>p \<notin> set K1\<close> \<open>p \<notin> set K2\<close> show thesis by (auto intro: that)
qed

text \<open>
  Claim C3. A directory that the old tree has and the new tree has not, holding \<open>N\<close> leaf
  entries over any nesting of subdirectories, contributes exactly \<open>N\<close> deletions, one per
  leaf path: the deletions of the diff are those of the diff without that directory, with
  the block of the prefixed leaf paths inserted, and the block has \<open>leaf_count c\<close>
  elements.
\<close>

theorem diffTrees_directory_delete:
  assumes old: "map_of oldTree p = Some (TreeNode e (Some c))"
    and tree: "type e = tree"
    and gone: "p \<notin> fst ` set newTree"
  shows "\<exists>pre post.
           deletions (diffTrees oldTree newTree) =
             pre @ map (\<lambda>l. p @ ''/'' @ l) (getLeafPaths c) @ post \<and>
           deletions (diffTrees (Map_delete p oldTree) newTree) = pre @ post \<and>
           length (map (\<lambda>l. p @ ''/'' @ l) (getLeafPaths c)) = leaf_count c"
proof -
  let ?keep = "\<lambda>x. x \<notin> fst ` set newTree"
  let ?K = "filter ?keep (new_Set (map fst oldTree))"
  let ?E = "concat (map (entry_deletions oldTree) newTree)"
  have "p \<in> fst ` set oldTree"
    using old by (auto dest: map_of_SomeD intro: rev_image_eqI)
  then have pK: "p \<in> set ?K"
    using gone by (simp add: set_new_Set)
  have dK: "distinct ?K"
    by (simp add: distinct_new_Set)
  from dK pK obtain K1 K2 where K: "?K = K1 @ p # K2" and K': "removeAll p ?K = K1 @ K2"
    and p1: "p \<notin> set K1" and p2: "p \<notin> set K2"
    by (rule removeAll_split)
  have keys': "filter ?keep (new_Set (map fst (Map_delete p oldTree))) = K1 @ K2"
    by (simp only: keys_Map_delete new_Set_removeAll filter_removeAll K')
  have block: "deletion_paths oldTree p = map (\<lambda>l. p @ ''/'' @ l) (getLeafPaths c)"
    using old tree by (simp add: deletion_paths_def)
  have same1: "map (deletion_paths (Map_delete p oldTree)) K1 = map (deletion_paths oldTree) K1"
    using p1 by (intro map_cong refl deletion_paths_Map_delete) auto
  have same2: "map (deletion_paths (Map_delete p oldTree)) K2 = map (deletion_paths oldTree) K2"
    using p2 by (intro map_cong refl deletion_paths_Map_delete) auto
  let ?pre = "?E @ concat (map (deletion_paths oldTree) K1)"
  let ?post = "concat (map (deletion_paths oldTree) K2)"
  have "deletions (diffTrees oldTree newTree) =
          ?pre @ map (\<lambda>l. p @ ''/'' @ l) (getLeafPaths c) @ ?post"
    by (simp add: diffTrees_eq K block)
  moreover have "deletions (diffTrees (Map_delete p oldTree) newTree) = ?pre @ ?post"
    by (simp add: diffTrees_eq keys' loop_deletions_Map_delete [OF gone] same1 same2)
  moreover have "length (map (\<lambda>l. p @ ''/'' @ l) (getLeafPaths c)) = leaf_count c"
    by (simp add: length_getLeafPaths)
  ultimately show ?thesis by blast
qed

theorem diffTrees_directory_delete_witness:
  "map_of committed_tree ''d'' =
     Some (TreeNode \<lparr>path = ''d'', sha = ''5'', mode = ''040000'', type = tree\<rparr>
       (Some removed_dir)) \<and>
   ''d'' \<notin> fst ` set current_tree \<and>
   (\<exists>pre post.
      deletions (diffTrees committed_tree current_tree) =
        pre @ map (\<lambda>l. ''d'' @ ''/'' @ l) (getLeafPaths removed_dir) @ post \<and>
      deletions (diffTrees (Map_delete ''d'' committed_tree) current_tree) = pre @ post \<and>
      length (map (\<lambda>l. ''d'' @ ''/'' @ l) (getLeafPaths removed_dir)) = leaf_count removed_dir)"
proof -
  have a: "map_of committed_tree ''d'' =
     Some (TreeNode \<lparr>path = ''d'', sha = ''5'', mode = ''040000'', type = tree\<rparr>
       (Some removed_dir))"
    by (simp add: committed_tree_def dir_def)
  have b: "type \<lparr>path = ''d'', sha = ''5'', mode = ''040000'', type = tree\<rparr> = tree"
    by simp
  have c: "''d'' \<notin> fst ` set current_tree"
    by (simp add: current_tree_def)
  show ?thesis using a c diffTrees_directory_delete [OF a b c] by blast
qed

section \<open>Entries that change their type\<close>

lemma entry_deletions_empty_old: "concat (map (entry_deletions []) c) = []"
proof (induction c rule: depth.induct)
  case 1
  then show ?case by simp
next
  case (2 k e rest)
  then show ?case by (simp add: entry_deletions_def)
next
  case (3 k e c rest)
  have "deletions (diffTrees [] c) = []"
    using "3.IH"(1) by (simp add: diffTrees_eq new_Set_def)
  with "3.IH"(2) show ?case
    by (simp add: entry_deletions_def old_children_def)
qed

lemma diffTrees_empty_old_deletions: "deletions (diffTrees [] c) = []"
  by (simp add: diffTrees_eq new_Set_def entry_deletions_empty_old)

lemma deletions_diffTrees:
  "deletions (diffTrees oldTree newTree) =
     concat (map (entry_deletions oldTree) newTree) @
     concat (map (deletion_paths oldTree)
       (filter (\<lambda>x. x \<notin> fst ` set newTree) (new_Set (map fst oldTree))))"
  by (simp add: diffTrees_eq)

lemma additions_diffTrees:
  "additions (diffTrees oldTree newTree) = concat (map (entry_additions oldTree) newTree)"
  by (simp add: diffTrees_eq)

lemma delete_append_notin:
  "p \<notin> fst ` set xs \<Longrightarrow> AList.delete p (xs @ zs) = xs @ AList.delete p zs"
  by (induction xs) auto

lemma Map_delete_split:
  assumes "p \<notin> fst ` set xs" and "p \<notin> fst ` set ys"
  shows "Map_delete p (xs @ (p, n) # ys) = xs @ ys"
  using assms by (simp add: Map_delete_def delete_append_notin)

lemma map_cong_keys:
  assumes "\<And>k n. k \<noteq> p \<Longrightarrow> f (k, n) = g (k, n)" and "p \<notin> fst ` set xs"
  shows "map f xs = map g xs"
proof (intro map_cong refl)
  fix x assume x: "x \<in> set xs"
  obtain k n where kn: "x = (k, n)" by (cases x)
  with x assms(2) have "k \<noteq> p" by force
  then show "f x = g x" unfolding kn by (rule assms(1))
qed

text \<open>
  Claim C2, as amended. When the entry at a path is a blob on one side and a tree on the
  other, with different shas, \<open>diffTrees\<close> records no deletion for the old entry: the
  deletions are those of the two trees without that path. The additions are those of the
  two trees without that path, with the additions for the new entry inserted: the new blob,
  or the additions of the new subtree against an empty tree, prefixed with the path.
\<close>

theorem diffTrees_type_change:
  assumes newd: "distinct (map fst newTree)"
    and old: "map_of oldTree p = Some (TreeNode oe och)"
    and new: "map_of newTree p = Some (TreeNode ne nch)"
    and shas: "sha oe \<noteq> sha ne"
    and types: "(type oe = blob \<and> och = None \<and> type ne = tree) \<or> (type oe = tree \<and> type ne = blob)"
  shows "deletions (diffTrees oldTree newTree) =
           deletions (diffTrees (Map_delete p oldTree) (Map_delete p newTree)) \<and>
         (\<exists>pre post.
            additions (diffTrees oldTree newTree) =
              pre @
              (if type ne = blob then [(p, sha ne)]
               else (case nch of
                       None \<Rightarrow> []
                     | Some c \<Rightarrow>
                         map (\<lambda>(ap, s). (p @ ''/'' @ ap, s)) (additions (diffTrees [] c)))) @
              post \<and>
            additions (diffTrees (Map_delete p oldTree) (Map_delete p newTree)) = pre @ post)"
proof -
  let ?nn = "TreeNode ne nch"
  let ?old' = "Map_delete p oldTree"
  from new have "(p, ?nn) \<in> set newTree" by (rule map_of_SomeD)
  then obtain xs ys where split: "newTree = xs @ (p, ?nn) # ys"
    by (auto dest: split_list)
  with newd have pxs: "p \<notin> fst ` set xs" and pys: "p \<notin> fst ` set ys" by auto
  have new': "Map_delete p newTree = xs @ ys"
    unfolding split using pxs pys by (rule Map_delete_split)
  have ch: "changed oldTree p ?nn"
    using old shas by (simp add: changed_def)
  have dels_p: "entry_deletions oldTree (p, ?nn) = []"
    using types
  proof
    assume "type oe = blob \<and> och = None \<and> type ne = tree"
    then show ?thesis
      using old by (cases nch) (simp_all add: entry_deletions_def old_children_def
          diffTrees_empty_old_deletions)
  next
    assume "type oe = tree \<and> type ne = blob"
    then show ?thesis by (cases nch) (simp_all add: entry_deletions_def)
  qed
  have adds_p: "entry_additions oldTree (p, ?nn) =
      (if type ne = blob then [(p, sha ne)]
       else (case nch of None \<Rightarrow> []
             | Some c \<Rightarrow> map (\<lambda>(ap, s). (p @ ''/'' @ ap, s)) (additions (diffTrees [] c))))"
    using types
  proof
    assume "type oe = blob \<and> och = None \<and> type ne = tree"
    then show ?thesis
      using old ch by (cases nch) (simp_all add: entry_additions_def old_children_def)
  next
    assume "type oe = tree \<and> type ne = blob"
    then show ?thesis
      using ch by (cases nch) (simp_all add: entry_additions_def)
  qed
  have dx: "map (entry_deletions ?old') xs = map (entry_deletions oldTree) xs"
    by (rule map_cong_keys [OF _ pxs]) (rule entry_deletions_Map_delete)
  have dy: "map (entry_deletions ?old') ys = map (entry_deletions oldTree) ys"
    by (rule map_cong_keys [OF _ pys]) (rule entry_deletions_Map_delete)
  have ax: "map (entry_additions ?old') xs = map (entry_additions oldTree) xs"
    by (rule map_cong_keys [OF _ pxs]) (rule entry_additions_Map_delete)
  have ay: "map (entry_additions ?old') ys = map (entry_additions oldTree) ys"
    by (rule map_cong_keys [OF _ pys]) (rule entry_additions_Map_delete)
  let ?S = "new_Set (map fst oldTree)"
  have in_new: "p \<in> fst ` set newTree" by (simp add: split)
  have keys: "filter (\<lambda>x. x \<notin> fst ` set (xs @ ys)) (new_Set (map fst ?old')) =
              filter (\<lambda>x. x \<notin> fst ` set newTree) ?S"
  proof -
    have "filter (\<lambda>x. x \<notin> fst ` set (xs @ ys)) (removeAll p ?S) =
          filter (\<lambda>x. x \<notin> fst ` set newTree) (removeAll p ?S)"
      by (rule filter_cong) (auto simp: split)
    also have "\<dots> = removeAll p (filter (\<lambda>x. x \<notin> fst ` set newTree) ?S)"
      by (rule filter_removeAll)
    also have "\<dots> = filter (\<lambda>x. x \<notin> fst ` set newTree) ?S"
      using in_new by (intro removeAll_id) simp
    finally show ?thesis by (simp only: keys_Map_delete new_Set_removeAll)
  qed
  have paths: "map (deletion_paths ?old') (filter (\<lambda>x. x \<notin> fst ` set newTree) ?S) =
               map (deletion_paths oldTree) (filter (\<lambda>x. x \<notin> fst ` set newTree) ?S)"
    using in_new by (intro map_cong refl deletion_paths_Map_delete) auto
  have loop: "concat (map (entry_deletions ?old') (xs @ ys)) =
              concat (map (entry_deletions oldTree) newTree)"
    by (simp add: dx dy split dels_p)
  have "deletions (diffTrees ?old' (Map_delete p newTree)) =
        concat (map (entry_deletions ?old') (xs @ ys)) @
        concat (map (deletion_paths oldTree) (filter (\<lambda>x. x \<notin> fst ` set newTree) ?S))"
    by (simp only: new' deletions_diffTrees keys paths)
  then have "deletions (diffTrees oldTree newTree) =
             deletions (diffTrees ?old' (Map_delete p newTree))"
    by (simp only: loop deletions_diffTrees)
  moreover have "additions (diffTrees oldTree newTree) =
      concat (map (entry_additions oldTree) xs) @ entry_additions oldTree (p, ?nn) @
      concat (map (entry_additions oldTree) ys)"
    by (simp add: additions_diffTrees split)
  moreover have "additions (diffTrees ?old' (Map_delete p newTree)) =
      concat (map (entry_additions oldTree) xs) @ concat (map (entry_additions oldTree) ys)"
    unfolding new' by (simp add: additions_diffTrees ax ay)
  ultimately show ?thesis
    unfolding adds_p by blast
qed

theorem diffTrees_type_change_witness:
  "distinct (map fst tree_side) \<and>
   map_of blob_side ''p'' =
     Some (TreeNode \<lparr>path = ''p'', sha = ''1'', mode = ''100644'', type = blob\<rparr> None) \<and>
   map_of tree_side ''p'' =
     Some (TreeNode \<lparr>path = ''p'', sha = ''2'', mode = ''040000'', type = tree\<rparr>
       (Some [(''x'', leaf ''p/x'' ''3'')])) \<and>
   deletions (diffTrees blob_side tree_side) =
     deletions (diffTrees (Map_delete ''p'' blob_side) (Map_delete ''p'' tree_side)) \<and>
   (\<exists>pre post.
      additions (diffTrees blob_side tree_side) =
        pre @
        map (\<lambda>(ap, s). (''p'' @ ''/'' @ ap, s))
          (additions (diffTrees [] [(''x'', leaf ''p/x'' ''3'')])) @
        post \<and>
      additions (diffTrees (Map_delete ''p'' blob_side) (Map_delete ''p'' tree_side)) =
        pre @ post)"
proof -
  have a: "distinct (map fst tree_side)"
    by (simp add: tree_side_def)
  have b: "map_of blob_side ''p'' =
     Some (TreeNode \<lparr>path = ''p'', sha = ''1'', mode = ''100644'', type = blob\<rparr> None)"
    by (simp add: blob_side_def leaf_def)
  have c: "map_of tree_side ''p'' =
     Some (TreeNode \<lparr>path = ''p'', sha = ''2'', mode = ''040000'', type = tree\<rparr>
       (Some [(''x'', leaf ''p/x'' ''3'')]))"
    by (simp add: tree_side_def dir_def)
  show ?thesis
    using a b c diffTrees_type_change [OF a b c] by simp
qed

text \<open>
  The claim as it was stated fails in both directions: a blob replaced by a directory, and
  a directory replaced by a blob, both give a diff without any deletion.
\<close>

theorem diffTrees_type_change_counterexample:
  "diffTrees blob_side tree_side = \<lparr>additions = [(''p/x'', ''3'')], deletions = []\<rparr> \<and>
   diffTrees tree_side blob_side = \<lparr>additions = [(''p'', ''1'')], deletions = []\<rparr>"
  by (simp add: diffTrees.simps blob_side_def tree_side_def leaf_def dir_def new_Set_def
        Set_add_def Set_delete_def)

section \<open>The extra-roots registry and the cache\<close>

lemma treeSchema_entry_js:
  "treeSchema_entry (VObj [(''path'', VStr (path e)), (''mode'', VStr (mode e)), (''sha'', VStr (sha e))])
     = Some (e :: StoredTreeEntry)"
  by (simp add: treeSchema_entry_def)

lemma treeSchema_safeParse_js: "treeSchema_safeParse (js_of_entries es) = Some es"
proof -
  have "those (map treeSchema_entry
          (map (\<lambda>e. VObj [(''path'', VStr (path e)), (''mode'', VStr (mode e)),
                            (''sha'', VStr (sha e))]) es)) = Some es"
    by (induction es) (simp_all add: treeSchema_entry_js)
  then show ?thesis
    by (simp add: treeSchema_safeParse_def js_of_entries_def)
qed

lemma gc_scan_invalid: "snd (gc_scan stored (treesToDelete, invalidTrees)) = invalidTrees"
  by (induction stored arbitrary: treesToDelete) (auto simp: treeSchema_safeParse_js)

text \<open>
  Claim C9. A persisted registry value that does not parse as JSON, or that parses to a
  value the schema rejects, makes \<open>getExtraRoots\<close> return the empty map: both failures
  are thrown inside the \<open>try\<close> block and end in its \<open>catch\<close>, so nothing is thrown to
  the caller.
\<close>

theorem getExtraRoots_malformed:
  assumes "localStorage st (rootsKey config) = Some val"
    and "JSON_parse val = None \<or>
         (\<exists>parsed. JSON_parse val = Some parsed \<and> extraRootsSchema_parse parsed = None)"
  shows "getExtraRoots JSON_parse config st = []"
  using assms by (auto simp: getExtraRoots_def getExtraRoots_try_def)

theorem getExtraRoots_malformed_witness:
  "localStorage
     \<lparr>treeStore = [], blobStore = [],
      localStorage = [''ks-roots-local'' \<mapsto> ''[1]''], storedTreeCache = None\<rparr>
     (rootsKey \<lparr>storage = local, cloud_project = None\<rparr>) = Some ''[1]'' \<and>
   extraRootsSchema_parse (VArr [VNum 1]) = None \<and>
   getExtraRoots (\<lambda>s. if s = ''[1]'' then Some (VArr [VNum 1]) else None)
     \<lparr>storage = local, cloud_project = None\<rparr>
     \<lparr>treeStore = [], blobStore = [],
      localStorage = [''ks-roots-local'' \<mapsto> ''[1]''], storedTreeCache = None\<rparr> = []"
proof -
  let ?st = "\<lparr>treeStore = [], blobStore = [],
      localStorage = [''ks-roots-local'' \<mapsto> ''[1]''], storedTreeCache = None\<rparr>"
  let ?parse = "\<lambda>s. if s = ''[1]'' then Some (VArr [VNum 1]) else None"
  have a: "localStorage ?st (rootsKey \<lparr>storage = local, cloud_project = None\<rparr>) = Some ''[1]''"
    by (simp add: rootsKey_def)
  have b: "extraRootsSchema_parse (VArr [VNum 1]) = None"
    by (simp add: extraRootsSchema_parse_def)
  have c: "?parse ''[1]'' = None \<or>
           (\<exists>parsed. ?parse ''[1]'' = Some parsed \<and> extraRootsSchema_parse parsed = None)"
    using b by simp
  show ?thesis
    using a b getExtraRoots_malformed [of ?st _ "''[1]''" ?parse, OF a c] by simp
qed

text \<open>
  Claim C10. \<open>clearObjectStore\<close> empties both stores and removes the registry key of the
  scope, and leaves \<open>_storedTreeCache\<close> as it is: once the cache is populated,
  \<open>getTreeFromPersistedCache\<close> after the clearing still builds every tree from the cache and
  answers what it answered before.
\<close>

theorem clearObjectStore_keeps_cache:
  assumes "storedTreeCache st = Some cache"
  shows "treeStore (clearObjectStore config st) = [] \<and>
         blobStore (clearObjectStore config st) = [] \<and>
         localStorage (clearObjectStore config st) (rootsKey config) = None \<and>
         storedTreeCache (clearObjectStore config st) = Some cache \<and>
         fst (getTreeFromPersistedCache n s (clearObjectStore config st)) =
           constructTreeFromStoredTrees n s cache '''' \<and>
         fst (getTreeFromPersistedCache n s (clearObjectStore config st)) =
           fst (getTreeFromPersistedCache n s st)"
  using assms
  by (simp add: clearObjectStore_def getTreeFromPersistedCache_def getStoredTrees_def)

theorem clearObjectStore_keeps_cache_witness:
  "storedTreeCache
     \<lparr>treeStore = [(StrKey ''A'', js_of_entries [])], blobStore = [],
      localStorage = Map.empty, storedTreeCache = Some [(''A'', [])]\<rparr> = Some [(''A'', [])] \<and>
   treeStore (clearObjectStore \<lparr>storage = local, cloud_project = None\<rparr>
     \<lparr>treeStore = [(StrKey ''A'', js_of_entries [])], blobStore = [],
      localStorage = Map.empty, storedTreeCache = Some [(''A'', [])]\<rparr>) = [] \<and>
   fst (getTreeFromPersistedCache 1 ''A''
     (clearObjectStore \<lparr>storage = local, cloud_project = None\<rparr>
       \<lparr>treeStore = [(StrKey ''A'', js_of_entries [])], blobStore = [],
        localStorage = Map.empty, storedTreeCache = Some [(''A'', [])]\<rparr>)) =
     Returns (Some (TreeNode \<lparr>path = '''', sha = ''A'', mode = ''040000'', type = tree\<rparr>
       (Some [])))"
proof -
  let ?st = "\<lparr>treeStore = [(StrKey ''A'', js_of_entries [])], blobStore = [],
      localStorage = Map.empty, storedTreeCache = Some [(''A'', [])]\<rparr>"
  have a: "storedTreeCache ?st = Some [(''A'', [])]" by simp
  show ?thesis
    using a clearObjectStore_keeps_cache [OF a, of "\<lparr>storage = local, cloud_project = None\<rparr>" 1 "''A''"]
    by simp
qed

section \<open>Garbage collection of the stores\<close>






text \<open>
  Claim C8 asks that garbage collection delete the entries of the tree store that fail
  the schema. The scan of \<open>garbageCollectGitObjects\<close> runs over the result of
  \<open>getStoredTrees\<close>, which has dropped those entries already, so \<open>invalidTrees\<close> stays
  empty (\<open>gc_scan_invalid\<close>) and a malformed entry survives the collection.
\<close>

theorem garbageCollect_keeps_invalid:
  "treeSchema_safeParse (VNum 42) = None \<and>
   treeStore (garbageCollectGitObjects (\<lambda>s. None) \<lparr>storage = local, cloud_project = None\<rparr> []
     \<lparr>treeStore = [(StrKey ''X'', VNum 42)], blobStore = [],
      localStorage = Map.empty, storedTreeCache = None\<rparr>) = [(StrKey ''X'', VNum 42)]"
  by (simp add: treeSchema_safeParse_def garbageCollectGitObjects_def getExtraRoots_def
        getStoredTrees_def new_Set_def gc_mark.simps [of _ 0] delMany_def)


section \<open>Rebuilding from an incomplete map\<close>

lemma constructTree_loop_no_tree:
  assumes "e \<in> set es" and "mode e = ''040000''"
    and "\<And>pp. no_tree (constructTreeFromStoredTrees n (sha e) trees pp)"
  shows "no_tree (constructTree_loop n es trees parentPath t)"
  using assms(1)
proof (induction es arbitrary: t)
  case Nil
  then show ?case by simp
next
  case (Cons x es)
  show ?case
  proof (cases "mode x = ''040000''")
    case False
    with Cons.prems assms(2) have "e \<in> set es" by auto
    then show ?thesis using False Cons.IH by (simp add: Let_def)
  next
    case True
    let ?inner = "(if parentPath = '''' then '''' else parentPath @ ''/'') @ path x"
    show ?thesis
    proof (cases "constructTreeFromStoredTrees n (sha x) trees ?inner")
      case OutOfFuel
      then show ?thesis using True by (simp add: no_tree_def Let_def)
    next
      case (Returns r)
      show ?thesis
      proof (cases r)
        case None
        then show ?thesis using True Returns by (simp add: no_tree_def Let_def)
      next
        case (Some child)
        have "x \<noteq> e"
        proof
          assume "x = e"
          with assms(3) [of ?inner] Returns Some show False by (simp add: no_tree_def)
        qed
        with Cons.prems have "e \<in> set es" by auto
        then show ?thesis using True Returns Some Cons.IH by (simp add: Let_def)
      qed
    qed
  qed
qed

lemma torn_no_tree: "torn trees s \<Longrightarrow> no_tree (constructTreeFromStoredTrees n s trees pp)"
proof (induction arbitrary: n pp rule: torn.induct)
  case (missing s)
  then show ?case by (cases n) (simp_all add: no_tree_def)
next
  case (child s es e)
  show ?case
  proof (cases n)
    case 0
    then show ?thesis by (simp add: no_tree_def)
  next
    case (Suc m)
    have "no_tree (constructTree_loop m es trees pp [])"
      using child.hyps(2,3) child.IH by (rule constructTree_loop_no_tree)
    then show ?thesis
      using Suc child.hyps(1) by (auto simp: no_tree_def)
  qed
qed

lemma constructTree_loop_terminates:
  assumes "\<And>e pp. e \<in> set es \<Longrightarrow> mode e = ''040000'' \<Longrightarrow>
             constructTreeFromStoredTrees n (sha e) trees pp \<noteq> OutOfFuel"
  shows "constructTree_loop n es trees parentPath t \<noteq> OutOfFuel"
  using assms
proof (induction es arbitrary: t)
  case Nil
  then show ?case by simp
next
  case (Cons x es)
  have rest: "\<And>t'. constructTree_loop n es trees parentPath t' \<noteq> OutOfFuel"
    using Cons.prems by (intro Cons.IH) auto
  show ?case
  proof (cases "mode x = ''040000''")
    case False
    then show ?thesis using rest by (simp add: Let_def)
  next
    case True
    let ?inner = "(if parentPath = '''' then '''' else parentPath @ ''/'') @ path x"
    have ne: "constructTreeFromStoredTrees n (sha x) trees ?inner \<noteq> OutOfFuel"
      using True by (intro Cons.prems) auto
    show ?thesis
    proof (cases "constructTreeFromStoredTrees n (sha x) trees ?inner")
      case OutOfFuel
      with ne show ?thesis by simp
    next
      case (Returns r)
      then show ?thesis
        using True rest by (cases r) (simp_all add: Let_def)
    qed
  qed
qed

lemma constructTree_terminates:
  assumes rank: "\<And>s es e. map_of trees s = Some es \<Longrightarrow> e \<in> set es \<Longrightarrow>
                   mode e = ''040000'' \<Longrightarrow> r (sha e) < r s"
  shows "r s < n \<Longrightarrow> constructTreeFromStoredTrees n s trees pp \<noteq> OutOfFuel"
proof (induction n arbitrary: s pp)
  case 0
  then show ?case by simp
next
  case (Suc n)
  show ?case
  proof (cases "map_of trees s")
    case None
    then show ?thesis by simp
  next
    case (Some es)
    have "constructTree_loop n es trees pp [] \<noteq> OutOfFuel"
    proof (rule constructTree_loop_terminates)
      fix e pp' assume e: "e \<in> set es" "mode e = ''040000''"
      with Some have "r (sha e) < r s" by (rule rank)
      with Suc.prems have "r (sha e) < n" by simp
      then show "constructTreeFromStoredTrees n (sha e) trees pp' \<noteq> OutOfFuel"
        by (rule Suc.IH)
    qed
    then show ?thesis
      using Some by (auto split: outcome.splits option.splits)
  qed
qed

text \<open>
  Claim C7, as amended. When the root sha, or the sha of a tree entry that is reachable
  from it through tree entries, has no stored tree, \<open>constructTreeFromStoredTrees\<close> never
  returns a tree, neither partial nor empty: at every depth of recursion it has returned
  \<open>undefined\<close> or is still recursing. Where the tree references of the map are acyclic
  (a rank decreases from every stored tree to its tree entries) it returns \<open>undefined\<close>,
  as soon as the depth exceeds the rank of the root.
\<close>

theorem constructTree_torn:
  assumes "torn trees s"
  shows "(constructTreeFromStoredTrees n s trees parentPath = OutOfFuel \<or>
          constructTreeFromStoredTrees n s trees parentPath = Returns None) \<and>
         ((\<forall>s' es e. map_of trees s' = Some es \<longrightarrow> e \<in> set es \<longrightarrow> mode e = ''040000'' \<longrightarrow>
              r (sha e) < r s') \<longrightarrow> r s < n \<longrightarrow>
          constructTreeFromStoredTrees n s trees parentPath = Returns None)"
proof -
  have a: "no_tree (constructTreeFromStoredTrees n s trees parentPath)"
    using assms by (rule torn_no_tree)
  have "constructTreeFromStoredTrees n s trees parentPath \<noteq> OutOfFuel"
    if "\<forall>s' es e. map_of trees s' = Some es \<longrightarrow> e \<in> set es \<longrightarrow> mode e = ''040000'' \<longrightarrow>
          r (sha e) < r s'" and "r s < n"
    using that(2) by (rule constructTree_terminates [rotated]) (use that(1) in blast)
  with a show ?thesis by (auto simp: no_tree_def)
qed

theorem constructTree_torn_witness:
  "torn torn_trees ''A'' \<and>
   constructTreeFromStoredTrees 2 ''A'' torn_trees '''' = Returns None"
proof -
  have m: "torn torn_trees (sha \<lparr>path = ''q'', sha = ''M'', mode = ''040000''\<rparr>)"
    using torn.missing [of torn_trees "''M''"] by (simp add: torn_trees_def)
  have a: "torn torn_trees ''A''"
    by (rule torn.child [OF _ _ _ m, where es = "[\<lparr>path = ''x'', sha = ''B'', mode = ''100644''\<rparr>,
          \<lparr>path = ''q'', sha = ''M'', mode = ''040000''\<rparr>]"]) (simp_all add: torn_trees_def)
  have b: "\<forall>s' es e. map_of torn_trees s' = Some es \<longrightarrow> e \<in> set es \<longrightarrow> mode e = ''040000'' \<longrightarrow>
      (if sha e = ''A'' then 1 else (0::nat)) < (if s' = ''A'' then 1 else 0)"
    by (auto simp: torn_trees_def split: if_splits)
  show ?thesis
    using a b
      constructTree_torn [OF a, of 2 "''''" "\<lambda>s. if s = ''A'' then 1 else (0::nat)"]
    by simp
qed

lemma cyclic_out_of_fuel: "constructTreeFromStoredTrees n ''A'' cyclic_trees pp = OutOfFuel"
proof (induction n arbitrary: pp)
  case 0
  then show ?case by simp
next
  case (Suc n)
  then show ?case by (simp add: cyclic_trees_def Let_def)
qed

text \<open>
  The claim as it was stated fails on a map that refers back to itself: the tree \<open>A\<close>
  lists itself before the missing tree \<open>M\<close>, and the recursion does not end at any depth.
\<close>

theorem constructTree_torn_counterexample:
  "torn cyclic_trees ''A'' \<and> \<not> returns_undefined cyclic_trees ''A''"
proof
  have m: "torn cyclic_trees (sha \<lparr>path = ''q'', sha = ''M'', mode = ''040000''\<rparr>)"
    using torn.missing [of cyclic_trees "''M''"] by (simp add: cyclic_trees_def)
  show "torn cyclic_trees ''A''"
    by (rule torn.child [OF _ _ _ m, where es = "[\<lparr>path = ''p'', sha = ''A'', mode = ''040000''\<rparr>,
          \<lparr>path = ''q'', sha = ''M'', mode = ''040000''\<rparr>]"]) (simp_all add: cyclic_trees_def)
  show "\<not> returns_undefined cyclic_trees ''A''"
    by (simp add: returns_undefined_def cyclic_out_of_fuel)
qed


section \<open>Flattening and rebuilding\<close>

lemma replace_dirs_segment: "CHR ''/'' \<notin> set s \<Longrightarrow> replace_dirs s = s"
proof (induction s rule: replace_dirs.induct)
  case (1 s)
  let ?line = "takeWhile (\<lambda>c. \<not> line_terminator c) s"
  let ?rest = "dropWhile (\<lambda>c. \<not> line_terminator c) s"
  have s: "?line @ ?rest = s" by simp
  have no: "CHR ''/'' \<notin> set ?line"
    using "1.prems" by (metis set_takeWhileD)
  then have eq: "replace_dirs s =
      (case ?rest of [] \<Rightarrow> ?line | t # rest' \<Rightarrow> ?line @ t # replace_dirs rest')"
    by (subst replace_dirs.simps) (simp only: Let_def if_False)
  show ?case
  proof (cases ?rest)
    case Nil
    from eq have "replace_dirs s = ?line" by (simp only: Nil list.case)
    also have "?line = ?line @ ?rest" by (simp only: Nil append_Nil2)
    finally show ?thesis by (simp only: s)
  next
    case (Cons t rest')
    have "set rest' \<subseteq> set ?rest" by (simp only: Cons) auto
    also have "set ?rest \<subseteq> set s" by (metis set_dropWhileD subsetI)
    finally have "CHR ''/'' \<notin> set rest'" using "1.prems" by auto
    with "1.IH" [OF refl refl no Cons] have r: "replace_dirs rest' = rest'" .
    from eq have "replace_dirs s = ?line @ t # replace_dirs rest'"
      by (simp only: Cons list.case)
    also have "\<dots> = ?line @ ?rest" by (simp only: r Cons)
    finally show ?thesis by (simp only: s)
  qed
qed

lemma Map_set_fresh: "k \<notin> fst ` set t \<Longrightarrow> Map_set k v t = t @ [(k, v)]"
  by (induction t) (auto simp: Map_set_def)

lemma map_of_Map_set: "map_of (Map_set k v m) = (map_of m)(k \<mapsto> v)"
  by (simp add: Map_set_def update_conv')

lemma map_of_foldl_Map_set:
  "map_of (foldl (\<lambda>m kv. Map_set (fst kv) (snd kv) m) m0 kvs) k =
     (case map_of (rev kvs) k of Some v \<Rightarrow> Some v | None \<Rightarrow> map_of m0 k)"
proof (induction kvs arbitrary: m0)
  case Nil
  then show ?case by simp
next
  case (Cons kv kvs)
  show ?case
    by (cases kv) (simp add: Cons.IH map_of_Map_set map_add_def split: option.splits)
qed

lemma map_of_new_Map: "map_of (new_Map kvs) k = map_of (rev kvs) k"
  by (simp add: new_Map_def map_of_foldl_Map_set split: option.splits)


lemma well_formed_segment_keys: "well_formed pp c \<Longrightarrow> segment_keys c"
  by (induction pp c rule: well_formed.induct) (auto split: option.splits)

lemma entries_of_Cons:
  "entries_of ((k, TreeNode e ch) # rest) = \<lparr>path = k, sha = sha e, mode = mode e\<rparr> # entries_of rest"
  by (simp add: entries_of_def)

lemma collectTrees_members:
  "set (collectTrees s c allTrees) \<subseteq> S \<Longrightarrow> segment_keys c \<Longrightarrow>
     set allTrees \<subseteq> S \<and> (s, entries_of c) \<in> S \<and> nodes_in S c"
  "set (snd (collectTrees_loop c entries allTrees)) \<subseteq> S \<Longrightarrow> segment_keys c \<Longrightarrow>
     set allTrees \<subseteq> S \<and> nodes_in S c \<and>
     fst (collectTrees_loop c entries allTrees) = entries @ entries_of c"
proof (induction s c allTrees and c entries allTrees
    rule: collectTrees_collectTrees_loop.induct)
  case (1 s childMap allTrees)
  obtain es all' where loop: "collectTrees_loop childMap [] allTrees = (es, all')"
    by (cases "collectTrees_loop childMap [] allTrees")
  with "1.prems"(1) have sub: "set all' \<subseteq> S" and mem: "(s, es) \<in> S" by auto
  from "1.IH" [of ] sub loop "1.prems"(2)
  have "set allTrees \<subseteq> S \<and> nodes_in S childMap \<and> es = entries_of childMap"
    by simp
  with mem show ?case by simp
next
  case (2 entries allTrees)
  then show ?case by (simp add: entries_of_def)
next
  case (3 p e ch rest entries allTrees)
  let ?entries = "entries @ [\<lparr>path = replace_dirs p, sha = sha e, mode = mode e\<rparr>]"
  let ?all = "case ch of Some c \<Rightarrow> collectTrees (sha e) c allTrees | None \<Rightarrow> allTrees"
  have p: "replace_dirs p = p"
    using "3.prems"(2) by (simp add: replace_dirs_segment)
  have rest: "segment_keys rest" using "3.prems"(2) by simp
  have step: "collectTrees_loop ((p, TreeNode e ch) # rest) entries allTrees =
              collectTrees_loop rest ?entries ?all"
    by simp
  with "3.prems"(1) have "set (snd (collectTrees_loop rest ?entries ?all)) \<subseteq> S"
    by (simp only:)
  from "3.IH"(2) [OF this rest]
  have all: "set ?all \<subseteq> S" and nodes: "nodes_in S rest"
    and es: "fst (collectTrees_loop rest ?entries ?all) = ?entries @ entries_of rest"
    by blast+
  have fst: "fst (collectTrees_loop ((p, TreeNode e ch) # rest) entries allTrees) =
             entries @ entries_of ((p, TreeNode e ch) # rest)"
    by (simp only: step es entries_of_Cons) (simp add: p)
  show ?case
  proof (cases ch)
    case None
    with all nodes fst show ?thesis by simp
  next
    case (Some c)
    have c: "segment_keys c" using "3.prems"(2) Some by simp
    from all Some have "set (collectTrees (sha e) c allTrees) \<subseteq> S" by simp
    from "3.IH"(1) [OF Some this c] nodes fst Some show ?thesis by simp
  qed
qed

lemma record_eq_entry:
  "path e = p \<Longrightarrow> mode e = m \<Longrightarrow> type e = t \<Longrightarrow>
   \<lparr>path = p, sha = sha e, mode = m, type = t\<rparr> = (e :: TreeEntry)"
  by (cases e) simp

lemma constructTree_loop_round_trip:
  assumes stored: "\<And>s es. (s, es) \<in> S \<Longrightarrow> map_of trees s = Some es"
  shows "well_formed pp c \<Longrightarrow> nodes_in S c \<Longrightarrow> depth c \<le> n \<Longrightarrow>
         fst ` set t \<inter> fst ` set c = {} \<Longrightarrow>
         constructTree_loop n (entries_of c) trees pp t = Returns (Some (t @ c))"
proof (induction c arbitrary: t pp n rule: depth.induct)
  case 1
  then show ?case by (simp add: entries_of_def)
next
  case (2 k e rest)
  let ?inner = "(if pp = '''' then '''' else pp @ ''/'') @ k"
  have node: "TreeNode \<lparr>path = ?inner, sha = sha e, mode = mode e,
                type = (if mode e = ''120000'' then symlink else blob)\<rparr> None = TreeNode e None"
    using "2.prems"(1) by (simp add: record_eq_entry)
  have fresh: "Map_set k (TreeNode e None) t = t @ [(k, TreeNode e None)]"
    using "2.prems"(4) by (intro Map_set_fresh) auto
  have "constructTree_loop n (entries_of rest) trees pp (t @ [(k, TreeNode e None)]) =
        Returns (Some ((t @ [(k, TreeNode e None)]) @ rest))"
    using "2.prems" by (intro "2.IH") auto
  moreover have "mode e \<noteq> ''040000''" using "2.prems"(1) by simp
  ultimately show ?case
    by (simp only: entries_of_Cons constructTree_loop.simps Let_def StoredTreeEntry.simps
          if_False node fresh) simp
next
  case (3 k e c rest)
  let ?inner = "(if pp = '''' then '''' else pp @ ''/'') @ k"
  have mode: "mode e = ''040000''" using "3.prems"(1) by simp
  have node: "TreeNode \<lparr>path = ?inner, sha = sha e, mode = ''040000'', type = tree\<rparr> (Some c) =
              TreeNode e (Some c)"
    using "3.prems"(1) by (simp add: record_eq_entry)
  from "3.prems"(3) obtain m where n: "n = Suc m" and m: "depth c \<le> m"
    by (cases n) auto
  have "map_of trees (sha e) = Some (entries_of c)"
    using "3.prems"(2) by (intro stored) simp
  moreover have "constructTree_loop m (entries_of c) trees ?inner [] = Returns (Some ([] @ c))"
    using "3.prems" m by (intro "3.IH"(1)) auto
  ultimately have child: "constructTreeFromStoredTrees n (sha e) trees ?inner =
      Returns (Some (TreeNode e (Some c)))"
    by (simp add: n node)
  have fresh: "Map_set k (TreeNode e (Some c)) t = t @ [(k, TreeNode e (Some c))]"
    using "3.prems"(4) by (intro Map_set_fresh) auto
  have "constructTree_loop n (entries_of rest) trees pp (t @ [(k, TreeNode e (Some c))]) =
        Returns (Some ((t @ [(k, TreeNode e (Some c))]) @ rest))"
    using "3.prems" by (intro "3.IH"(2)) auto
  then show ?case
    by (simp only: entries_of_Cons constructTree_loop.simps Let_def StoredTreeEntry.simps
          mode if_True child outcome.case option.case fresh) simp
qed


lemma collectTrees_hashed:
  "sha_matches h c \<Longrightarrow> segment_keys c \<Longrightarrow> s = h (entries_of c) \<Longrightarrow>
     (\<And>x. x \<in> set allTrees \<Longrightarrow> fst x = h (snd x)) \<Longrightarrow>
     x \<in> set (collectTrees s c allTrees) \<Longrightarrow> fst x = h (snd x)"
  "sha_matches h c \<Longrightarrow> segment_keys c \<Longrightarrow>
     (\<And>x. x \<in> set allTrees \<Longrightarrow> fst x = h (snd x)) \<Longrightarrow>
     x \<in> set (snd (collectTrees_loop c entries allTrees)) \<Longrightarrow> fst x = h (snd x)"
proof (induction s c allTrees and c entries allTrees arbitrary: x and x
    rule: collectTrees_collectTrees_loop.induct)
  case (1 s childMap allTrees)
  obtain es all' where loop: "collectTrees_loop childMap [] allTrees = (es, all')"
    by (cases "collectTrees_loop childMap [] allTrees")
  have "es = [] @ entries_of childMap"
    using collectTrees_members(2) [of childMap "[]" allTrees UNIV] "1.prems"(2) loop by simp
  with "1.prems"(3) have root: "s = h es" by simp
  from "1.prems"(5) loop have "x \<in> set all' \<or> x = (s, es)" by auto
  then show ?case
  proof
    assume "x \<in> set all'"
    with loop have "x \<in> set (snd (collectTrees_loop childMap [] allTrees))" by simp
    with "1.IH" "1.prems"(1,2,4) show ?thesis by blast
  next
    assume "x = (s, es)"
    with root show ?thesis by simp
  qed
next
  case (2 entries allTrees)
  then show ?case by simp
next
  case (3 p e ch rest entries allTrees)
  let ?entries = "entries @ [\<lparr>path = replace_dirs p, sha = sha e, mode = mode e\<rparr>]"
  let ?all = "case ch of Some c \<Rightarrow> collectTrees (sha e) c allTrees | None \<Rightarrow> allTrees"
  have rest: "segment_keys rest" "sha_matches h rest" using "3.prems"(1,2) by simp_all
  have x: "x \<in> set (snd (collectTrees_loop rest ?entries ?all))"
    using "3.prems"(4) by simp
  have all: "fst y = h (snd y)" if "y \<in> set ?all" for y
  proof (cases ch)
    case None
    with that "3.prems"(3) show ?thesis by simp
  next
    case (Some c)
    have "sha_matches h c" "segment_keys c" "sha e = h (entries_of c)"
      using "3.prems"(1,2) Some by simp_all
    moreover have "y \<in> set (collectTrees (sha e) c allTrees)" using that Some by simp
    ultimately show ?thesis
      using "3.IH"(1) [OF Some] "3.prems"(3) by blast
  qed
  show ?case
    using "3.IH"(2) [OF rest(2,1) all x] .
qed

lemma content_addressed_lookup:
  assumes "\<And>x y. x \<in> set flat \<Longrightarrow> y \<in> set flat \<Longrightarrow> fst x = fst y \<Longrightarrow> snd x = snd y"
    and "(s, es) \<in> set flat"
  shows "map_of (new_Map flat) s = Some es"
proof -
  from assms(2) have "(s, es) \<in> set (rev flat)" by simp
  then obtain v where v: "map_of (rev flat) s = Some v"
    by (meson weak_map_of_SomeI)
  then have "(s, v) \<in> set flat" by (auto dest: map_of_SomeD)
  with assms have "v = es" by fastforce
  with v show ?thesis by (simp add: map_of_new_Map)
qed

text \<open>
  Claim C6. A well-formed tree is rebuilt from its own flattening: the children are keyed
  by single path segments, every entry carries its full path, mode and type agree and
  say whether the node has children, and every tree node's sha is the hash \<open>h\<close> of its
  serialized children, with no two different serializations in the tree sharing a hash.
  Then \<open>constructTreeFromStoredTrees\<close>, given the root sha and the map made of
  \<open>collectTrees\<close>, returns the tree itself as soon as the depth of recursion allowed
  exceeds the depth of the tree.
\<close>

theorem constructTree_round_trip:
  assumes wf: "well_formed '''' c"
    and root: "s = h (entries_of c)"
    and hashes: "sha_matches h c"
    and inj: "inj_on h (snd ` set (collectTrees s c []))"
    and fuel: "depth c < n"
  shows "constructTreeFromStoredTrees n s (new_Map (collectTrees s c [])) '''' =
         Returns (Some (TreeNode \<lparr>path = '''', sha = s, mode = ''040000'', type = tree\<rparr> (Some c)))"
proof -
  let ?flat = "collectTrees s c []"
  have seg: "segment_keys c" using wf by (rule well_formed_segment_keys)
  have hashed: "fst x = h (snd x)" if "x \<in> set ?flat" for x
    using hashes seg root _ that by (rule collectTrees_hashed(1)) simp
  have functional: "snd x = snd y" if "x \<in> set ?flat" "y \<in> set ?flat" "fst x = fst y" for x y
  proof -
    from that hashed have "h (snd x) = h (snd y)" by metis
    with inj that(1,2) show ?thesis by (auto dest: inj_onD)
  qed
  have stored: "map_of (new_Map ?flat) s' = Some es" if "(s', es) \<in> set ?flat" for s' es
    using functional that by (rule content_addressed_lookup)
  from collectTrees_members(1) [where s = s and c = c and allTrees = "[]" and S = "set ?flat",
      OF subset_refl seg]
  have top: "(s, entries_of c) \<in> set ?flat" and nodes: "nodes_in (set ?flat) c"
    by simp_all
  from fuel obtain m where n: "n = Suc m" and m: "depth c \<le> m"
    by (cases n) auto
  have "constructTree_loop m (entries_of c) (new_Map ?flat) '''' [] = Returns (Some ([] @ c))"
  proof (rule constructTree_loop_round_trip [where S = "set ?flat"])
    show "fst ` set ([] :: TreeMap) \<inter> fst ` set c = {}" by simp
  qed (use stored wf nodes m in auto)
  then show ?thesis
    using stored [OF top] by (simp add: n)
qed

theorem constructTree_round_trip_witness:
  "well_formed '''' current_tree \<and>
   ''9'' = example_hash (entries_of current_tree) \<and>
   sha_matches example_hash current_tree \<and>
   inj_on example_hash (snd ` set (collectTrees ''9'' current_tree [])) \<and>
   depth current_tree < 2 \<and>
   constructTreeFromStoredTrees 2 ''9'' (new_Map (collectTrees ''9'' current_tree [])) '''' =
     Returns (Some (TreeNode \<lparr>path = '''', sha = ''9'', mode = ''040000'', type = tree\<rparr>
       (Some current_tree)))"
proof -
  have a: "well_formed '''' current_tree"
    by (simp add: current_tree_def leaf_def dir_def)
  have b: "''9'' = example_hash (entries_of current_tree)"
    by (simp add: current_tree_def leaf_def dir_def entries_of_def example_hash_def)
  have c: "sha_matches example_hash current_tree"
    by (simp add: current_tree_def leaf_def dir_def entries_of_def example_hash_def)
  have d: "inj_on example_hash (snd ` set (collectTrees ''9'' current_tree []))"
    by (simp add: current_tree_def leaf_def dir_def example_hash_def replace_dirs_segment)
  have e: "depth current_tree < 2"
    by (simp add: current_tree_def leaf_def dir_def)
  show ?thesis
    using a b c d e constructTree_round_trip [OF a b c d e] by blast
qed

end
